theory Spec2Isabelle
  imports Main "HOL-Library.Word"
begin

unbundle bit_operations_syntax

section \<open>ECDSA over secp256k1: DER codec, verification and signing (ecdsa_impl.h)\<close>

text \<open>
  The development embeds the functions of \<^verbatim>\<open>ecdsa_impl.h\<close>. Bytes are 8-bit words.
  A cursor \<^verbatim>\<open>const unsigned char **sigp\<close> into a buffer that ends at \<^verbatim>\<open>sigend\<close> is
  the pair of the buffer (a byte list whose length is the distance from its start to
  \<^verbatim>\<open>sigend\<close>) and an offset; every function that advances the cursor returns the new
  offset. C \<^verbatim>\<open>int\<close> values are integers (32 bits where a conversion can truncate),
  \<^verbatim>\<open>size_t\<close> is 64 bits wide with its wrap-around written out.
\<close>

type_synonym byte = "8 word"

subsection \<open>Curve constants\<close>

text \<open>The field prime p and the group order n, as the comments of the source give them.\<close>

definition secp256k1_p :: nat where
  "secp256k1_p = 0xFFFFFFFFFFFFFFFFFFFFFFFFFFFFFFFFFFFFFFFFFFFFFFFFFFFFFFFEFFFFFC2F"

definition secp256k1_n :: nat where
  "secp256k1_n = 0xFFFFFFFFFFFFFFFFFFFFFFFFFFFFFFFEBAAEDCE6AF48A03BBFD25E8CD0364141"

text \<open>
  Modelled from the spec: the external field element type (field.h is not part of the
  sources at hand). A field element is an integer mod p, kept as its canonical
  representative; the macro \<^verbatim>\<open>SECP256K1_FE_CONST(d7, ..., d0)\<close> builds the element
  from eight 32-bit words, most significant first.
\<close>

type_synonym fe = nat

definition SECP256K1_FE_CONST ::
  "nat \<Rightarrow> nat \<Rightarrow> nat \<Rightarrow> nat \<Rightarrow> nat \<Rightarrow> nat \<Rightarrow> nat \<Rightarrow> nat \<Rightarrow> fe" where
  "SECP256K1_FE_CONST d7 d6 d5 d4 d3 d2 d1 d0 =
     (((((((d7 * 2 ^ 32 + d6) * 2 ^ 32 + d5) * 2 ^ 32 + d4) * 2 ^ 32 + d3) * 2 ^ 32 + d2)
        * 2 ^ 32 + d1) * 2 ^ 32 + d0) mod secp256k1_p"

definition ecdsa_const_order_as_fe :: fe where
  "ecdsa_const_order_as_fe = SECP256K1_FE_CONST
     0xFFFFFFFF 0xFFFFFFFF 0xFFFFFFFF 0xFFFFFFFE
     0xBAAEDCE6 0xAF48A03B 0xBFD25E8C 0xD0364141"

definition ecdsa_const_p_minus_order :: fe where
  "ecdsa_const_p_minus_order = SECP256K1_FE_CONST
     0 0 0 1 0x45512319 0x50B75FC4 0x402DA172 0x2FC9BAEE"

subsection \<open>Big-endian byte strings\<close>

fun be_val :: "byte list \<Rightarrow> nat" where
  "be_val [] = 0"
| "be_val (b # bs) = unat b * 256 ^ length bs + be_val bs"

fun be_bytes :: "nat \<Rightarrow> nat \<Rightarrow> byte list" where
  "be_bytes 0 v = []"
| "be_bytes (Suc k) v = word_of_nat (v div 256 ^ k) # be_bytes k v"

text \<open>Modular exponentiation by repeated squaring, for the two modular inverses.\<close>

function modpow :: "nat \<Rightarrow> nat \<Rightarrow> nat \<Rightarrow> nat" where
  "modpow b e m =
     (if e = 0 then 1 mod m
      else
        let h = modpow ((b * b) mod m) (e div 2) m in
        if odd e then (b * h) mod m else h)"
  by pat_completeness auto
termination
  by (relation "measure (\<lambda>(b, e, m). e)") auto

subsection \<open>Scalars\<close>

text \<open>
  Modelled from the spec: the external scalar type (scalar.h is not part of the sources
  at hand). A scalar is an integer mod n, always reduced; its canonical representation is
  32 big-endian bytes; decoding 32 bytes reduces the raw value mod n and reports through
  the overflow flag whether the raw value was at least n. The inverse is the power with
  exponent n - 2.
\<close>

type_synonym scalar = nat

definition scalar_set_b32 :: "byte list \<Rightarrow> scalar \<times> bool" where
  "scalar_set_b32 b32 = (be_val b32 mod secp256k1_n, secp256k1_n \<le> be_val b32)"

definition scalar_get_b32 :: "scalar \<Rightarrow> byte list" where
  "scalar_get_b32 a = be_bytes 32 a"

definition scalar_set_int :: "nat \<Rightarrow> scalar" where
  "scalar_set_int v = v mod secp256k1_n"

definition scalar_is_zero :: "scalar \<Rightarrow> bool" where
  "scalar_is_zero a = (a = 0)"

definition scalar_add :: "scalar \<Rightarrow> scalar \<Rightarrow> scalar" where
  "scalar_add a b = (a + b) mod secp256k1_n"

definition scalar_mul :: "scalar \<Rightarrow> scalar \<Rightarrow> scalar" where
  "scalar_mul a b = (a * b) mod secp256k1_n"

definition scalar_negate :: "scalar \<Rightarrow> scalar" where
  "scalar_negate a = (secp256k1_n - a) mod secp256k1_n"

definition scalar_inverse :: "scalar \<Rightarrow> scalar" where
  "scalar_inverse a = modpow a (secp256k1_n - 2) secp256k1_n"

definition scalar_inverse_var :: "scalar \<Rightarrow> scalar" where
  "scalar_inverse_var a = scalar_inverse a"

definition scalar_is_high :: "scalar \<Rightarrow> bool" where
  "scalar_is_high a = (secp256k1_n div 2 < a)"

subsection \<open>DER length decoder\<close>

text \<open>The conversion of a \<^verbatim>\<open>size_t\<close> to the \<^verbatim>\<open>int\<close> that \<^verbatim>\<open>der_read_len\<close> returns.\<close>

definition int_of_size_t :: "nat \<Rightarrow> int" where
  "int_of_size_t v = sint (word_of_nat v :: 32 word)"

definition sizeof_size_t :: int where
  "sizeof_size_t = 8"

text \<open>
  The \<^verbatim>\<open>while (lenleft > 0)\<close> loop of \<^verbatim>\<open>der_read_len\<close> together with the test and the
  return that follow it. \<^verbatim>\<open>ret\<close> is a \<^verbatim>\<open>size_t\<close>: the shift and the sum wrap at 64 bits.
\<close>

function der_read_len_loop :: "byte list \<Rightarrow> nat \<Rightarrow> int \<Rightarrow> nat \<Rightarrow> int \<times> nat" where
  "der_read_len_loop buf pos lenleft ret =
     (if lenleft > 0 then
        (let ret' = (push_bit 8 ret mod 2 ^ 64) OR unat (buf ! pos) in
         if (ret' + nat lenleft) mod 2 ^ 64 > length buf - pos then (- 1, pos)
         else der_read_len_loop buf (pos + 1) (lenleft - 1) ret')
      else if ret < 128 then (- 1, pos)
      else (int_of_size_t ret, pos))"
  by pat_completeness auto
termination
  by (relation "measure (\<lambda>(buf, pos, lenleft, ret). nat lenleft)") auto

definition der_read_len :: "byte list \<Rightarrow> nat \<Rightarrow> int \<times> nat" where
  "der_read_len buf pos =
     (if pos \<ge> length buf then (- 1, pos)
      else
        let b1 = uint (buf ! pos); pos1 = pos + 1 in
        if b1 = 0xFF then (- 1, pos1)
        else if b1 AND 0x80 = 0 then (b1, pos1)
        else if b1 = 0x80 then (- 1, pos1)
        else
          let lenleft = b1 AND 0x7F in
          if lenleft > int (length buf) - int pos1 then (- 1, pos1)
          else if buf ! pos1 = 0 then (- 1, pos1)
          else if lenleft > sizeof_size_t then (- 1, pos1)
          else der_read_len_loop buf pos1 lenleft 0)"

subsection \<open>DER integer parser\<close>

text \<open>The loop that skips leading zero bytes: it returns the new offset and \<^verbatim>\<open>rlen\<close>.\<close>

function der_skip_zeros :: "byte list \<Rightarrow> nat \<Rightarrow> int \<Rightarrow> nat \<times> int" where
  "der_skip_zeros buf pos rlen =
     (if rlen > 0 \<and> buf ! pos = 0 then der_skip_zeros buf (pos + 1) (rlen - 1)
      else (pos, rlen))"
  by pat_completeness auto
termination
  by (relation "measure (\<lambda>(buf, pos, rlen). nat rlen)") auto

text \<open>
  \<^verbatim>\<open>memcpy(ra + 32 - rlen, *sig, rlen)\<close> into the zero-initialised \<^verbatim>\<open>ra[32]\<close>, for
  \<^verbatim>\<open>0 \<le> rlen \<le> 32\<close> and \<^verbatim>\<open>rlen\<close> readable bytes at the cursor.
\<close>

definition der_copy_ra :: "byte list \<Rightarrow> nat \<Rightarrow> int \<Rightarrow> byte list" where
  "der_copy_ra buf pos rlen =
     replicate (32 - nat rlen) 0 @ take (nat rlen) (drop pos buf)"

text \<open>
  The parser takes the scalar \<^verbatim>\<open>*r\<close> as it is on entry and returns the return code, the
  scalar as it is on exit and the new offset of the cursor.
\<close>

definition der_parse_integer :: "scalar \<Rightarrow> byte list \<Rightarrow> nat \<Rightarrow> int \<times> scalar \<times> nat" where
  "der_parse_integer r buf pos =
     (if pos = length buf \<or> buf ! pos \<noteq> 0x02 then (0, r, pos)
      else
        let (rlen, pos1) = der_read_len buf (pos + 1) in
        if rlen \<le> 0 \<or> int pos1 + rlen > int (length buf) then (0, r, pos1)
        else if buf ! pos1 = 0x00 \<and> rlen > 1 \<and> (buf ! (pos1 + 1)) AND 0x80 = 0x00
          then (0, r, pos1)
        else if buf ! pos1 = 0xFF \<and> rlen > 1 \<and> (buf ! (pos1 + 1)) AND 0x80 = 0x80
          then (0, r, pos1)
        else
          let overflow = ((buf ! pos1) AND 0x80 = 0x80);
              (pos2, rlen2) = der_skip_zeros buf pos1 rlen;
              overflow = (overflow \<or> rlen2 > 32);
              (r1, overflow) =
                 (if \<not> overflow then scalar_set_b32 (der_copy_ra buf pos2 rlen2)
                  else (r, overflow));
              r2 = (if overflow then scalar_set_int 0 else r1)
          in (1, r2, pos2 + nat rlen2))"

subsection \<open>Signature parser\<close>

definition ecdsa_sig_parse ::
  "scalar \<Rightarrow> scalar \<Rightarrow> byte list \<Rightarrow> int \<times> scalar \<times> scalar" where
  "ecdsa_sig_parse rr rs sig =
     (if 0 = length sig \<or> sig ! 0 \<noteq> 0x30 then (0, rr, rs)
      else
        let (rlen, pos1) = der_read_len sig 1 in
        if rlen < 0 \<or> int pos1 + rlen > int (length sig) then (0, rr, rs)
        else if int pos1 + rlen \<noteq> int (length sig) then (0, rr, rs)
        else
          let (ok1, rr1, pos2) = der_parse_integer rr sig pos1 in
          if ok1 = 0 then (0, rr1, rs)
          else
            let (ok2, rs1, pos3) = der_parse_integer rs sig pos2 in
            if ok2 = 0 then (0, rr1, rs1)
            else if pos3 \<noteq> length sig then (0, rr1, rs1)
            else (1, rr1, rs1))"

subsection \<open>Signature serializer\<close>

text \<open>
  One of the two loops \<^verbatim>\<open>while (lenR > 1 && rp[0] == 0 && rp[1] < 0x80) { lenR--; rp++; }\<close>:
  the list is the array from \<^verbatim>\<open>rp\<close> to its end, so its length is \<^verbatim>\<open>lenR\<close>.
\<close>

fun der_strip :: "byte list \<Rightarrow> byte list" where
  "der_strip (a # b # bs) = (if a = 0 \<and> b < 0x80 then der_strip (b # bs) else a # b # bs)"
| "der_strip bs = bs"

text \<open>
  The serializer takes the output buffer \<^verbatim>\<open>sig\<close> as it is on entry and the capacity
  \<^verbatim>\<open>*size\<close> (here \<open>sz\<close>), and returns the return code, the buffer and \<^verbatim>\<open>*size\<close> as they are on exit.
  Writing past the end of the buffer that was passed (a capacity larger than the buffer)
  has no defined outcome in C: the model returns None there.
\<close>

definition ecdsa_sig_serialize ::
  "byte list \<Rightarrow> nat \<Rightarrow> scalar \<Rightarrow> scalar \<Rightarrow> (int \<times> byte list \<times> nat) option" where
  "ecdsa_sig_serialize sig sz a_r a_s =
     (let rp = der_strip (0 # scalar_get_b32 a_r);
          sp = der_strip (0 # scalar_get_b32 a_s);
          lenR = length rp; lenS = length sp in
      if sz < 6 + lenS + lenR then Some (0, sig, 6 + lenS + lenR)
      else if length sig < 6 + lenS + lenR then None
      else Some (1,
        [0x30, word_of_nat (4 + lenS + lenR), 0x02, word_of_nat lenR] @ rp @
        [0x02, word_of_nat lenS] @ sp @ drop (6 + lenS + lenR) sig,
        6 + lenS + lenR))"

subsection \<open>Field elements and points\<close>

text \<open>
  Modelled from the spec: the external field arithmetic (field.h is not part of the
  sources at hand): byte (de)serialization, normalization to the canonical
  representative, addition, multiplication, comparison, parity and inversion, all mod p.
\<close>

definition fe_set_b32 :: "byte list \<Rightarrow> fe" where
  "fe_set_b32 a = be_val a mod secp256k1_p"

definition fe_get_b32 :: "fe \<Rightarrow> byte list" where
  "fe_get_b32 a = be_bytes 32 a"

definition fe_normalize :: "fe \<Rightarrow> fe" where
  "fe_normalize a = a mod secp256k1_p"

definition fe_add :: "fe \<Rightarrow> fe \<Rightarrow> fe" where
  "fe_add r a = (r + a) mod secp256k1_p"

definition fe_mul :: "fe \<Rightarrow> fe \<Rightarrow> fe" where
  "fe_mul a b = (a * b) mod secp256k1_p"

definition fe_sqr :: "fe \<Rightarrow> fe" where
  "fe_sqr a = fe_mul a a"

definition fe_inv :: "fe \<Rightarrow> fe" where
  "fe_inv a = modpow a (secp256k1_p - 2) secp256k1_p"

definition fe_cmp_var :: "fe \<Rightarrow> fe \<Rightarrow> int" where
  "fe_cmp_var a b = (if a < b then - 1 else if a = b then 0 else 1)"

definition fe_is_odd :: "fe \<Rightarrow> bool" where
  "fe_is_odd a = odd a"

text \<open>
  Modelled from the spec: the external point types (group.h is not part of the sources
  at hand). A point is an affine pair (x, y) or a Jacobian triple (X, Y, Z) that stands
  for (X / Z^2, Y / Z^3); Jacobian infinity is Z = 0. The x-only equality test of a
  field element against a Jacobian point is x * Z^2 = X (mod p).
\<close>

record ge =
  ge_x :: fe
  ge_y :: fe

record gej =
  gej_x :: fe
  gej_y :: fe
  gej_z :: fe

definition gej_set_ge :: "ge \<Rightarrow> gej" where
  "gej_set_ge a = \<lparr>gej_x = ge_x a, gej_y = ge_y a, gej_z = 1\<rparr>"

definition ge_set_gej :: "gej \<Rightarrow> ge" where
  "ge_set_gej a =
     (let zi = fe_inv (gej_z a); zi2 = fe_sqr zi; zi3 = fe_mul zi2 zi in
      \<lparr>ge_x = fe_mul (gej_x a) zi2, ge_y = fe_mul (gej_y a) zi3\<rparr>)"

definition gej_is_infinity :: "gej \<Rightarrow> bool" where
  "gej_is_infinity a = (gej_z a mod secp256k1_p = 0)"

definition gej_eq_x_var :: "fe \<Rightarrow> gej \<Rightarrow> bool" where
  "gej_eq_x_var x a = (fe_mul (fe_sqr (gej_z a)) x = gej_x a mod secp256k1_p)"

subsection \<open>Signature verification\<close>

text \<open>
  The double multiplication \<^verbatim>\<open>ecmult(ctx, &pr, &pubkeyj, &u2, &u1)\<close>, which stores
  u2 * pubkey + u1 * G in \<^verbatim>\<open>pr\<close>, belongs to ecmult.h, which is not part of the sources
  at hand: it is a parameter of the model, as is the type of its context. The function is
  the one built without \<^verbatim>\<open>EXHAUSTIVE_TEST_ORDER\<close>.
\<close>

definition ecdsa_sig_verify ::
  "('ctx \<Rightarrow> gej \<Rightarrow> scalar \<Rightarrow> scalar \<Rightarrow> gej) \<Rightarrow> 'ctx \<Rightarrow> scalar \<Rightarrow> scalar \<Rightarrow> ge \<Rightarrow> scalar \<Rightarrow> int" where
  "ecdsa_sig_verify ecmult ctx sigr sigs pubkey message =
     (if scalar_is_zero sigr \<or> scalar_is_zero sigs then 0
      else
        let sn = scalar_inverse_var sigs;
            u1 = scalar_mul sn message;
            u2 = scalar_mul sn sigr;
            pubkeyj = gej_set_ge pubkey;
            pr = ecmult ctx pubkeyj u2 u1
        in
        if gej_is_infinity pr then 0
        else
          let c = scalar_get_b32 sigr;
              xr = fe_set_b32 c
          in
          if gej_eq_x_var xr pr then 1
          else if fe_cmp_var xr ecdsa_const_p_minus_order \<ge> 0 then 0
          else
            let xr = fe_add xr ecdsa_const_order_as_fe in
            if gej_eq_x_var xr pr then 1
            else 0)"

subsection \<open>Signing\<close>

text \<open>
  \<^verbatim>\<open>ecmult_gen(ctx, &rp, nonce)\<close>, which stores nonce * G in \<^verbatim>\<open>rp\<close>, belongs to
  ecmult_gen.h and is a parameter of the model. The macro \<^verbatim>\<open>VERIFY_CHECK\<close> is not part
  of the sources at hand either: the parameter \<open>checks\<close> says whether the build makes it
  an assertion that ends the program (the outcome \<open>Aborted\<close>) or leaves it out.
\<close>

datatype 'a outcome = Aborted | Returned 'a

text \<open>
  Lines 278 to 300 of the function: everything before the tests on \<^verbatim>\<open>sigs\<close>. The result
  holds \<^verbatim>\<open>*sigr\<close>, \<^verbatim>\<open>*sigs\<close> and \<^verbatim>\<open>*recid\<close> (None for a null pointer) at that point.
\<close>

definition ecdsa_sig_sign_compute ::
  "bool \<Rightarrow> ('ctx \<Rightarrow> scalar \<Rightarrow> gej) \<Rightarrow> 'ctx \<Rightarrow> scalar \<Rightarrow> scalar \<Rightarrow> scalar \<Rightarrow> int option
     \<Rightarrow> (scalar \<times> scalar \<times> int option) outcome" where
  "ecdsa_sig_sign_compute checks ecmult_gen ctx seckey message nonce recid =
     (let rp = ecmult_gen ctx nonce;
          r = ge_set_gej rp;
          r = r\<lparr>ge_x := fe_normalize (ge_x r)\<rparr>;
          r = r\<lparr>ge_y := fe_normalize (ge_y r)\<rparr>;
          b = fe_get_b32 (ge_x r);
          (sigr, overflow) = scalar_set_b32 b
      in
      if checks \<and> scalar_is_zero sigr then Aborted
      else if checks \<and> overflow then Aborted
      else
        let recid = (case recid of None \<Rightarrow> None
                     | Some _ \<Rightarrow> Some ((if overflow then 2 else 0) OR
                                        (if fe_is_odd (ge_y r) then 1 else (0::int))));
            n = scalar_mul sigr seckey;
            n = scalar_add n message;
            sigs = scalar_inverse nonce;
            sigs = scalar_mul sigs n
        in Returned (sigr, sigs, recid))"

text \<open>The whole function: return code, \<^verbatim>\<open>*sigr\<close>, \<^verbatim>\<open>*sigs\<close> and \<^verbatim>\<open>*recid\<close> on exit.\<close>

definition ecdsa_sig_sign ::
  "bool \<Rightarrow> ('ctx \<Rightarrow> scalar \<Rightarrow> gej) \<Rightarrow> 'ctx \<Rightarrow> scalar \<Rightarrow> scalar \<Rightarrow> scalar \<Rightarrow> int option
     \<Rightarrow> (int \<times> scalar \<times> scalar \<times> int option) outcome" where
  "ecdsa_sig_sign checks ecmult_gen ctx seckey message nonce recid =
     (case ecdsa_sig_sign_compute checks ecmult_gen ctx seckey message nonce recid of
        Aborted \<Rightarrow> Aborted
      | Returned (sigr, sigs, recid) \<Rightarrow>
          if scalar_is_zero sigs then Returned (0, sigr, sigs, recid)
          else if scalar_is_high sigs
            then Returned (1, sigr, scalar_negate sigs, map_option (\<lambda>v. v XOR 1) recid)
          else Returned (1, sigr, sigs, recid))"

declare modpow.simps [simp del]
declare der_read_len_loop.simps [simp del]
declare der_skip_zeros.simps [simp del]

section \<open>Bytes and bits\<close>

lemma word_and_exp_eq_exp:
  assumes "n < LENGTH('a)"
  shows "((a::'a::len word) AND 2 ^ n = 2 ^ n) = bit a n"
proof
  assume "a AND 2 ^ n = 2 ^ n"
  then have "bit (a AND 2 ^ n) n = bit (2 ^ n :: 'a word) n" by simp
  then show "bit a n" using assms by (simp add: bit_simps)
next
  assume "bit a n"
  then show "a AND 2 ^ n = 2 ^ n"
    by (intro bit_eqI) (auto simp: bit_simps)
qed

lemma byte_and_0x80_set: "((b::byte) AND 0x80 = 0x80) = (\<not> b AND 0x80 = 0)"
  using word_and_exp_eq_exp[of 7 b] and_exp_eq_0_iff_not_bit[of b 7] by simp

lemma length_be_bytes: "length (be_bytes k v) = k"
  by (induction k) simp_all

lemma der_strip_length_le: "length (der_strip bs) \<le> length bs"
  by (induction bs rule: der_strip.induct) auto

lemma der_strip_nonempty: "bs \<noteq> [] \<Longrightarrow> der_strip bs \<noteq> []"
  by (induction bs rule: der_strip.induct) auto

lemma der_strip_len_bounds:
  "1 \<le> length (der_strip (0 # scalar_get_b32 a)) \<and> length (der_strip (0 # scalar_get_b32 a)) \<le> 33"
proof -
  have "der_strip (0 # scalar_get_b32 a) \<noteq> []" by (rule der_strip_nonempty) simp
  then have "1 \<le> length (der_strip (0 # scalar_get_b32 a))"
    by (cases "der_strip (0 # scalar_get_b32 a)") simp_all
  moreover have "length (der_strip (0 # scalar_get_b32 a)) \<le> length (0 # scalar_get_b32 a)"
    by (rule der_strip_length_le)
  ultimately show ?thesis by (simp add: scalar_get_b32_def length_be_bytes)
qed


lemma int_and_0x80: "0 \<le> x \<Longrightarrow> x < 256 \<Longrightarrow> (x AND 0x80 = 0) = (x < (128::int))"
proof -
  assume a: "0 \<le> x" "x < 256"
  have "(128::int) = 2 ^ 7" by simp
  then have "(x AND 0x80 = 0) = (\<not> bit x 7)"
    by (metis and_exp_eq_0_iff_not_bit)
  also have "\<dots> = (x < 128)"
  proof (cases "x < 128")
    case True
    then show ?thesis using a by (simp add: bit_iff_odd)
  next
    case False
    then have "x div 128 = 1" using a by (intro int_div_pos_eq[where r="x - 128"]) simp_all
    then show ?thesis using False by (simp add: bit_iff_odd)
  qed
  finally show ?thesis .
qed

lemma int_and_0x7F: "(x::int) AND 0x7F = x mod 128"
proof -
  have "(0x7F::int) = mask 7" by (simp add: mask_eq_exp_minus_1)
  then have "x AND 0x7F = take_bit 7 x" by (simp only: take_bit_eq_mask)
  then show ?thesis by (simp add: take_bit_eq_mod)
qed

lemma uint_byte_bounds: "0 \<le> uint (b::byte) \<and> uint b < 256"
  using uint_bounded[of b] by simp

lemma uint_byte_and_0x80: "(uint (b::byte) AND 0x80 = 0) = (b < 0x80)"
  using uint_byte_bounds[of b] by (simp add: int_and_0x80 word_less_def)

lemma byte_and_0x80_zero: "((b::byte) AND 0x80 = 0) = (b < 0x80)"
proof -
  have "(b AND 0x80 = 0) = (uint (b AND 0x80) = 0)" by (simp add: uint_0_iff)
  also have "\<dots> = (uint b AND 0x80 = 0)" by (simp add: unsigned_and_eq)
  finally show ?thesis by (simp add: uint_byte_and_0x80)
qed

lemma der_read_len_short:
  assumes "pos < length buf" and "buf ! pos < 0x80"
  shows "der_read_len buf pos = (uint (buf ! pos), pos + 1)"
proof -
  have "uint (buf ! pos) < 128" using assms(2) by (simp add: word_less_def)
  then have "uint (buf ! pos) \<noteq> 0xFF" by simp
  moreover have "uint (buf ! pos) AND 0x80 = 0" using assms(2) by (simp add: uint_byte_and_0x80)
  ultimately show ?thesis using assms(1) by (simp add: der_read_len_def Let_def)
qed

lemma uint_word_of_nat_byte: "n < 256 \<Longrightarrow> uint (word_of_nat n :: byte) = int n"
  by (simp add: unsigned_of_nat take_bit_eq_mod)

lemma word_of_nat_byte_less: "n < 128 \<Longrightarrow> (word_of_nat n :: byte) < 0x80"
  by (simp add: word_less_def uint_word_of_nat_byte)


lemma be_bytes_numeral:
  "be_bytes (numeral k) v = word_of_nat (v div 256 ^ pred_numeral k) # be_bytes (pred_numeral k) v"
  by (simp add: numeral_eq_Suc)

lemma serialize_5_7:
  "ecdsa_sig_serialize (replicate 8 0xAA) 8 5 7 = Some (1, [0x30, 6, 2, 1, 5, 2, 1, 7], 8)"
  by (simp add: ecdsa_sig_serialize_def scalar_get_b32_def be_bytes_numeral Let_def)

lemma strip_5: "der_strip (0 # scalar_get_b32 5) = [5]"
  by (simp add: scalar_get_b32_def be_bytes_numeral)

lemma strip_7: "der_strip (0 # scalar_get_b32 7) = [7]"
  by (simp add: scalar_get_b32_def be_bytes_numeral)

section \<open>Serializer: sizes\<close>

text \<open>
  C10: for every pair of scalars the stripped integer encodings that the serializer
  produces are 1 to 33 bytes long each, so the required size 6 + lenR + lenS is at most 72
  and the body length 4 + lenR + lenS is at most 70, below 128: the single length byte
  written at offset 1 is a short-form length that the length decoder reads back as
  4 + lenR + lenS.
\<close>
theorem serialize_sizes_bounded:
  "ecdsa_sig_serialize sig sz r s = Some (ok, sig', sz') \<Longrightarrow>
     (let lenR = length (der_strip (0 # scalar_get_b32 r));
          lenS = length (der_strip (0 # scalar_get_b32 s)) in
      1 \<le> lenR \<and> lenR \<le> 33 \<and> 1 \<le> lenS \<and> lenS \<le> 33 \<and>
      sz' = 6 + lenR + lenS \<and> sz' \<le> 72 \<and> 4 + lenR + lenS \<le> 70 \<and>
      (ok = 1 \<longrightarrow> der_read_len sig' 1 = (int (4 + lenR + lenS), 2)))"
proof -
  assume a: "ecdsa_sig_serialize sig sz r s = Some (ok, sig', sz')"
  define lenR where "lenR = length (der_strip (0 # scalar_get_b32 r))"
  define lenS where "lenS = length (der_strip (0 # scalar_get_b32 s))"
  have bR: "1 \<le> lenR \<and> lenR \<le> 33" unfolding lenR_def by (rule der_strip_len_bounds)
  have bS: "1 \<le> lenS \<and> lenS \<le> 33" unfolding lenS_def by (rule der_strip_len_bounds)
  have sz: "sz' = 6 + lenR + lenS"
    using a by (auto simp: ecdsa_sig_serialize_def Let_def lenR_def lenS_def split: if_splits)
  have rd: "der_read_len sig' 1 = (int (4 + lenR + lenS), 2)" if "ok = 1"
  proof -
    define k where "k = 4 + lenS + lenR"
    have k: "k < 128" using bR bS by (simp add: k_def)
    have l: "1 < length sig'" and b: "sig' ! 1 = word_of_nat k"
      using a that unfolding k_def lenR_def lenS_def
      by (auto simp: ecdsa_sig_serialize_def Let_def simp del: of_nat_add split: if_splits)
    have "sig' ! 1 < 0x80" unfolding b using k by (rule word_of_nat_byte_less)
    with l have "der_read_len sig' 1 = (uint (sig' ! 1), 1 + 1)"
      by (rule der_read_len_short)
    then have "der_read_len sig' 1 = (int k, 2)"
      unfolding b using k by (simp add: uint_word_of_nat_byte)
    then show ?thesis by (simp add: k_def add.commute add.left_commute)
  qed
  show ?thesis using bR bS sz rd by (simp add: Let_def lenR_def [symmetric] lenS_def [symmetric])
qed

theorem serialize_sizes_bounded_witness:
  "ecdsa_sig_serialize (replicate 8 0xAA) 8 5 7 = Some (1, [0x30, 6, 2, 1, 5, 2, 1, 7], 8) \<and>
   length (der_strip (0 # scalar_get_b32 5)) = 1 \<and>
   length (der_strip (0 # scalar_get_b32 7)) = 1 \<and>
   der_read_len [0x30, 6, 2, 1, 5, 2, 1, 7] 1 = (6, 2)"
  using serialize_sizes_bounded [OF serialize_5_7] serialize_5_7
  by (simp add: strip_5 strip_7)

text \<open>
  C6: with a capacity below the required size 6 + lenS + lenR the serializer returns 0,
  stores the required size and leaves every byte of the output buffer as it was; whenever
  the serializer returns at all, the size it stores is the required size.
\<close>
theorem serialize_reports_required_size:
  "(let need = 6 + length (der_strip (0 # scalar_get_b32 s)) + length (der_strip (0 # scalar_get_b32 r)) in
     (sz < need \<longrightarrow> ecdsa_sig_serialize sig sz r s = Some (0, sig, need)) \<and>
     (\<forall>ok sig' sz'. ecdsa_sig_serialize sig sz r s = Some (ok, sig', sz') \<longrightarrow> sz' = need))"
  by (auto simp: ecdsa_sig_serialize_def Let_def split: if_splits)

theorem serialize_reports_required_size_witness:
  "(5::nat) < 8 \<and> ecdsa_sig_serialize (replicate 8 0xAA) 5 5 7 = Some (0, replicate 8 0xAA, 8)"
  using serialize_reports_required_size [where sz = 5 and r = 5 and s = 7 and sig = "replicate 8 0xAA"]
  by (simp add: strip_5 strip_7)

section \<open>DER length decoder: rejections\<close>

lemma take_Suc_drop:
  "pos < length buf \<Longrightarrow> take (Suc k) (drop pos buf) = buf ! pos # take k (drop (Suc pos) buf)"
  by (simp add: Cons_nth_drop_Suc [symmetric])

lemma der_read_len_loop_small:
  "0 \<le> lenleft \<Longrightarrow> pos + nat lenleft \<le> length buf \<Longrightarrow>
   ret * 256 ^ nat lenleft + be_val (take (nat lenleft) (drop pos buf)) < 128 \<Longrightarrow>
   fst (der_read_len_loop buf pos lenleft ret) = - 1"
proof (induction "nat lenleft" arbitrary: lenleft pos ret)
  case 0
  then have "lenleft = 0" by simp
  with 0 show ?case by (simp add: der_read_len_loop.simps)
next
  case (Suc k)
  then have pos: "pos < length buf" and l: "lenleft > 0" and k: "nat lenleft = Suc k"
    and k': "k = nat (lenleft - 1)" by auto
  define ret' where "ret' = push_bit 8 ret mod 2 ^ 64 OR unat (buf ! pos)"
  have "Suc (pos + k) \<le> length buf" using Suc.prems(2) k by simp
  then have lk: "min (length buf - Suc pos) k = k" by simp
  have small: "ret * 256 ^ Suc k + unat (buf ! pos) * 256 ^ k + be_val (take k (drop (Suc pos) buf)) < 128"
    using Suc.prems(3) pos by (simp add: k take_Suc_drop lk)
  have "ret * 256 \<le> ret * 256 ^ Suc k" by simp
  with small have "ret * 256 < 128" by linarith
  then have "ret = 0" by simp
  then have r': "ret' = unat (buf ! pos)" by (simp add: ret'_def)
  have small': "ret' * 256 ^ nat (lenleft - 1) + be_val (take (nat (lenleft - 1)) (drop (pos + 1) buf)) < 128"
    using small r' \<open>ret = 0\<close> by (simp add: k' [symmetric])
  have "fst (der_read_len_loop buf (pos + 1) (lenleft - 1) ret') = - 1"
    using Suc.prems(2) l small' by (intro Suc.hyps(1)) (simp_all add: k')
  then show ?case
    using l by (subst der_read_len_loop.simps) (simp add: Let_def ret'_def)
qed

lemma byte_low7: "(b::byte) AND 0x80 = 0 \<Longrightarrow> uint (b AND 0x7F) = uint b"
proof -
  assume "b AND 0x80 = 0"
  then have "uint b < 128" by (simp add: byte_and_0x80_zero word_less_def)
  moreover have "uint (b AND 0x7F) = uint b mod 128"
    by (simp add: unsigned_and_eq int_and_0x7F)
  ultimately show ?thesis by simp
qed

lemma der_read_len_0xFF: "pos < length buf \<Longrightarrow> buf ! pos = 0xFF \<Longrightarrow> der_read_len buf pos = (- 1, pos + 1)"
  by (simp add: der_read_len_def Let_def)

lemma der_read_len_0x80: "pos < length buf \<Longrightarrow> buf ! pos = 0x80 \<Longrightarrow> der_read_len buf pos = (- 1, pos + 1)"
  by (simp add: der_read_len_def Let_def)

lemma der_read_len_long_small:
  assumes "pos < length buf" and "buf ! pos AND 0x80 \<noteq> 0"
    and "be_val (take (unat (buf ! pos AND 0x7F)) (drop (pos + 1) buf)) < 128"
  shows "fst (der_read_len buf pos) = - 1"
proof -
  define lenleft where "lenleft = uint (buf ! pos) AND 0x7F"
  have "uint (buf ! pos AND 0x7F) = lenleft"
    by (simp add: lenleft_def unsigned_and_eq)
  then have ll: "nat lenleft = unat (buf ! pos AND 0x7F)"
    by (simp add: unat_eq_nat_uint)
  have l0: "0 \<le> lenleft" by (simp add: lenleft_def)
  have loop: "fst (der_read_len_loop buf (pos + 1) lenleft 0) = - 1"
    if "\<not> lenleft > int (length buf) - int (pos + 1)"
  proof -
    have "pos + 1 + nat lenleft \<le> length buf" using that l0 by linarith
    then show ?thesis
      using l0 assms(3) by (intro der_read_len_loop_small) (simp_all add: ll)
  qed
  have "uint (buf ! pos) AND 0x80 \<noteq> 0"
    using assms(2) by (simp add: uint_byte_and_0x80 byte_and_0x80_zero)
  then show ?thesis
    using assms(1) loop
    by (simp add: der_read_len_def Let_def lenleft_def [symmetric])
qed


text \<open>
  C7: on an input that has a first length byte, the length decoder returns the negative
  sentinel -1 when that byte is 0xFF, when it is 0x80, and when it announces the long form
  and the big-endian value of the length octets it announces is below 128; when the high
  bit of the byte is clear it succeeds and returns the low 7 bits of the byte.
\<close>
theorem der_read_len_rejects:
  "pos < length buf \<Longrightarrow>
    (buf ! pos = 0xFF \<longrightarrow> fst (der_read_len buf pos) = - 1) \<and>
    (buf ! pos = 0x80 \<longrightarrow> fst (der_read_len buf pos) = - 1) \<and>
    (buf ! pos AND 0x80 \<noteq> 0 \<and>
       be_val (take (unat (buf ! pos AND 0x7F)) (drop (pos + 1) buf)) < 128 \<longrightarrow>
       fst (der_read_len buf pos) = - 1) \<and>
    (buf ! pos AND 0x80 = 0 \<longrightarrow>
       der_read_len buf pos = (uint (buf ! pos AND 0x7F), pos + 1))"
proof (intro conjI impI)
  assume p: "pos < length buf"
  show "fst (der_read_len buf pos) = - 1" if "buf ! pos = 0xFF"
    using p that by (simp add: der_read_len_0xFF)
  show "fst (der_read_len buf pos) = - 1" if "buf ! pos = 0x80"
    using p that by (simp add: der_read_len_0x80)
  show "fst (der_read_len buf pos) = - 1"
    if "buf ! pos AND 0x80 \<noteq> 0 \<and>
        be_val (take (unat (buf ! pos AND 0x7F)) (drop (pos + 1) buf)) < 128"
    using p that by (intro der_read_len_long_small) simp_all
  show "der_read_len buf pos = (uint (buf ! pos AND 0x7F), pos + 1)" if "buf ! pos AND 0x80 = 0"
    using p that by (simp add: der_read_len_short byte_and_0x80_zero [symmetric] byte_low7)
qed

theorem der_read_len_rejects_witness:
  "fst (der_read_len [0xFF] 0) = - 1 \<and> fst (der_read_len [0x80] 0) = - 1 \<and>
   fst (der_read_len ([0x81, 0x7F] @ replicate 127 0) 0) = - 1 \<and>
   der_read_len [0x46] 0 = (70, 1)"
  using der_read_len_rejects [of 0 "[0xFF]"] der_read_len_rejects [of 0 "[0x80]"]
    der_read_len_rejects [of 0 "[0x81, 0x7F] @ replicate 127 0"]
    der_read_len_rejects [of 0 "[0x46]"]
  by simp

section \<open>DER integer and signature parsers\<close>

lemma be_val_append: "be_val (xs @ ys) = be_val xs * 256 ^ length ys + be_val ys"
  by (induction xs) (simp_all add: power_add algebra_simps)

lemma be_val_replicate_zero: "be_val (replicate k 0) = 0"
  by (induction k) simp_all

lemma be_val_zero_padded: "be_val (replicate k 0 @ bs) = be_val bs"
  by (simp add: be_val_append be_val_replicate_zero)


lemma der_parse_integer_fail_unchanged:
  "der_parse_integer r buf pos = (0, r', pos') \<Longrightarrow> r' = r"
  by (auto simp: der_parse_integer_def Let_def split: if_splits prod.splits)

lemma der_parse_integer_code: "fst (der_parse_integer r buf pos) = 0 \<or> fst (der_parse_integer r buf pos) = 1"
  by (auto simp: der_parse_integer_def Let_def split: if_splits prod.splits)


text \<open>
  C8: signature parsing returns 1 with the scalars (r, s) exactly when the first byte is
  0x30, the decoded sequence length is the number of bytes left after the length octets,
  the two INTEGERs parse in order giving r and then s, and the cursor after the second
  INTEGER is the end of the buffer; in every other case it returns 0.
\<close>
theorem ecdsa_sig_parse_success_iff:
  "(ecdsa_sig_parse rr rs sig = (1, r, s)) =
     (sig \<noteq> [] \<and> sig ! 0 = 0x30 \<and>
      (let (rlen, pos1) = der_read_len sig 1 in
       0 \<le> rlen \<and> int pos1 + rlen = int (length sig) \<and>
       (let (ok1, rr1, pos2) = der_parse_integer rr sig pos1 in
        ok1 = 1 \<and> rr1 = r \<and>
        (let (ok2, rs1, pos3) = der_parse_integer rs sig pos2 in
         ok2 = 1 \<and> rs1 = s \<and> pos3 = length sig)))) \<and>
   (fst (ecdsa_sig_parse rr rs sig) = 1 \<or> fst (ecdsa_sig_parse rr rs sig) = 0)"
  using der_parse_integer_code [of rr sig "snd (der_read_len sig 1)"]
    der_parse_integer_code [of rs sig "snd (snd (der_parse_integer rr sig (snd (der_read_len sig 1))))"]
  by (auto simp: ecdsa_sig_parse_def Let_def split: prod.splits)

lemmas parse_eval = ecdsa_sig_parse_def der_parse_integer_def der_read_len_def Let_def
  der_skip_zeros.simps der_copy_ra_def scalar_set_b32_def scalar_set_int_def secp256k1_n_def
  be_val_zero_padded

lemma parse_5_7: "ecdsa_sig_parse 11 13 [0x30, 6, 2, 1, 5, 2, 1, 7] = (1, 5, 7)"
  by (simp add: parse_eval)

theorem ecdsa_sig_parse_success_iff_witness:
  "ecdsa_sig_parse 11 13 [0x30, 6, 2, 1, 5, 2, 1, 7] = (1, 5, 7) \<and>
   der_read_len [0x30, 6, 2, 1, 5, 2, 1, 7] 1 = (6, 2) \<and>
   der_parse_integer 11 [0x30, 6, 2, 1, 5, 2, 1, 7] 2 = (1, 5, 5) \<and>
   der_parse_integer 13 [0x30, 6, 2, 1, 5, 2, 1, 7] 5 = (1, 7, 8)"
  using ecdsa_sig_parse_success_iff [THEN conjunct1, THEN iffD1, OF parse_5_7]
  by (simp add: parse_eval)

lemma parse_truncated: "ecdsa_sig_parse 11 13 [0x30, 3, 2, 1, 5] = (0, 5, 13)"
  by (simp add: parse_eval)

text \<open>
  C9 as stated fails: on the five bytes 30 03 02 01 05 the parse returns 0, yet the
  scalar r, which was 11 on entry, holds the 5 read from the input, while s still holds
  the 13 it had on entry.
\<close>
theorem ecdsa_sig_parse_partial_output: "ecdsa_sig_parse 11 13 [0x30, 3, 2, 1, 5] = (0, 5, 13)"
  by (rule parse_truncated)

text \<open>
  C9 as amended: when signature parsing returns 0, the state of the output scalars is
  fixed by the place of the failure. When the failure is in the sequence header (tag,
  length, or a length that differs from the bytes left) or in the first INTEGER, both
  scalars are as they were on entry. When the first INTEGER parses and the second fails,
  r holds the value of the first INTEGER and s is as it was on entry. When both INTEGERs
  parse, r and s hold their values and the cursor is short of the end of the buffer.
\<close>
theorem ecdsa_sig_parse_failure_outputs:
  "ecdsa_sig_parse rr rs sig = (0, rr', rs') \<Longrightarrow>
     (let (rlen, posl) = der_read_len sig 1;
          header = (sig \<noteq> [] \<and> sig ! 0 = 0x30 \<and> 0 \<le> rlen \<and>
                    int posl + rlen = int (length sig));
          (ok1, r1, posr) = der_parse_integer rr sig posl;
          (ok2, s1, poss) = der_parse_integer rs sig posr in
      (\<not> header \<or> ok1 = 0 \<longrightarrow> rr' = rr \<and> rs' = rs) \<and>
      (header \<and> ok1 = 1 \<and> ok2 = 0 \<longrightarrow> rr' = r1 \<and> rs' = rs) \<and>
      (header \<and> ok1 = 1 \<and> ok2 = 1 \<longrightarrow> rr' = r1 \<and> rs' = s1 \<and> poss \<noteq> length sig))"
  using der_parse_integer_code [of rr sig "snd (der_read_len sig 1)"]
    der_parse_integer_code [of rs sig "snd (snd (der_parse_integer rr sig (snd (der_read_len sig 1))))"]
  by (auto simp: ecdsa_sig_parse_def Let_def split: prod.splits if_splits
      dest: der_parse_integer_fail_unchanged)

lemma parse_wrong_tag: "ecdsa_sig_parse 11 13 [0x31, 3, 2, 1, 5] = (0, 11, 13)"
  by (simp add: parse_eval)

lemma parse_trailing: "ecdsa_sig_parse 11 13 [0x30, 7, 2, 1, 5, 2, 1, 7, 0] = (0, 5, 7)"
  by (simp add: parse_eval)

theorem ecdsa_sig_parse_failure_outputs_witness:
  "ecdsa_sig_parse 11 13 [0x31, 3, 2, 1, 5] = (0, 11, 13) \<and>
   ecdsa_sig_parse 11 13 [0x30, 3, 2, 1, 5] = (0, 5, 13) \<and>
   der_read_len [0x30, 3, 2, 1, 5] 1 = (3, 2) \<and>
   der_parse_integer 11 [0x30, 3, 2, 1, 5] 2 = (1, 5, 5) \<and>
   der_parse_integer 13 [0x30, 3, 2, 1, 5] 5 = (0, 13, 5) \<and>
   ecdsa_sig_parse 11 13 [0x30, 7, 2, 1, 5, 2, 1, 7, 0] = (0, 5, 7) \<and>
   der_parse_integer 11 [0x30, 7, 2, 1, 5, 2, 1, 7, 0] 2 = (1, 5, 5) \<and>
   der_parse_integer 13 [0x30, 7, 2, 1, 5, 2, 1, 7, 0] 5 = (1, 7, 8)"
  using ecdsa_sig_parse_failure_outputs [OF parse_wrong_tag]
    ecdsa_sig_parse_failure_outputs [OF parse_truncated]
    ecdsa_sig_parse_failure_outputs [OF parse_trailing]
    parse_wrong_tag parse_truncated parse_trailing
  by (simp add: parse_eval)


section \<open>Signing and verification\<close>

lemma modpow_eq: "modpow b e m = b ^ e mod m"
proof (induction b e m rule: modpow.induct)
  case (1 b e m)
  show ?case
  proof (cases "e = 0")
    case True
    then show ?thesis by (subst modpow.simps) simp
  next
    case False
    have h: "modpow (b * b mod m) (e div 2) m = (b * b) ^ (e div 2) mod m"
      using "1.IH" [OF False] by (simp add: power_mod)
    have sq: "(b * b) ^ (e div 2) = b ^ (2 * (e div 2))"
      by (simp add: power_mult power2_eq_square)
    show ?thesis
    proof (cases "odd e")
      case True
      then have e: "e = Suc (2 * (e div 2))" by (simp add: odd_two_times_div_two_succ)
      have "modpow b e m = (b * ((b * b) ^ (e div 2) mod m)) mod m"
        using False True h by (subst modpow.simps) (simp add: Let_def)
      also have "\<dots> = (b * b ^ (2 * (e div 2))) mod m"
        by (simp add: sq mod_mult_right_eq)
      also have "\<dots> = b ^ e mod m" by (subst (2) e) simp
      finally show ?thesis .
    next
      case False
      then have e: "e = 2 * (e div 2)" by simp
      have "modpow b e m = (b * b) ^ (e div 2) mod m"
        using \<open>e \<noteq> 0\<close> False h by (subst modpow.simps) (simp add: Let_def)
      also have "\<dots> = b ^ e mod m" by (subst (2) e) (simp only: sq)
      finally show ?thesis .
    qed
  qed
qed

lemma be_val_be_bytes_mod: "be_val (be_bytes k v) = v mod 256 ^ k"
proof (induction k)
  case 0
  show ?case by simp
next
  case (Suc k)
  have "unat (word_of_nat (v div 256 ^ k) :: byte) = v div 256 ^ k mod 256"
    by (simp add: unsigned_of_nat take_bit_eq_mod)
  then have "be_val (be_bytes (Suc k) v) = (v div 256 ^ k mod 256) * 256 ^ k + v mod 256 ^ k"
    by (simp add: Suc length_be_bytes)
  also have "\<dots> = 256 ^ k * (v div 256 ^ k mod 256) + v mod 256 ^ k"
    by (simp only: mult.commute)
  also have "\<dots> = v mod (256 ^ k * 256)"
    by (rule mod_mult2_eq [symmetric])
  also have "\<dots> = v mod 256 ^ Suc k"
    by (simp only: power_Suc2)
  finally show ?case .
qed

lemma be_val_be_bytes: "v < 256 ^ k \<Longrightarrow> be_val (be_bytes k v) = v"
  by (simp add: be_val_be_bytes_mod)

lemma n_less_p: "secp256k1_n < secp256k1_p"
  by (simp add: secp256k1_n_def secp256k1_p_def)

lemma p_less_2_256: "secp256k1_p < 256 ^ 32"
  by (simp add: secp256k1_p_def)

lemma order_as_fe_eq: "ecdsa_const_order_as_fe = secp256k1_n"
  by (simp add: ecdsa_const_order_as_fe_def SECP256K1_FE_CONST_def secp256k1_n_def secp256k1_p_def)

lemma p_minus_order_eq: "ecdsa_const_p_minus_order = secp256k1_p - secp256k1_n"
  by (simp add: ecdsa_const_p_minus_order_def SECP256K1_FE_CONST_def secp256k1_n_def secp256k1_p_def)

lemma fe_of_scalar: "a < secp256k1_n \<Longrightarrow> fe_set_b32 (scalar_get_b32 a) = a"
  using n_less_p p_less_2_256
  by (simp add: fe_set_b32_def scalar_get_b32_def be_val_be_bytes)

lemma n_odd: "secp256k1_n = 2 * (secp256k1_n div 2) + 1"
  by (simp add: secp256k1_n_def)

lemma n_pos: "0 < secp256k1_n"
  by (simp add: secp256k1_n_def)

lemma scalar_mul_less: "scalar_mul a b < secp256k1_n"
  using n_pos by (simp add: scalar_mul_def)

lemma scalar_negate_high:
  assumes "a < secp256k1_n" and "scalar_is_high a"
  shows "scalar_negate a \<noteq> 0 \<and> scalar_negate a \<le> secp256k1_n div 2 \<and> \<not> scalar_is_high (scalar_negate a)
     \<and> scalar_negate a = secp256k1_n - a"
proof -
  have h: "secp256k1_n div 2 < a" using assms(2) by (simp add: scalar_is_high_def)
  have "secp256k1_n - a < secp256k1_n" using h assms(1) by simp
  then have e: "scalar_negate a = secp256k1_n - a" by (simp add: scalar_negate_def)
  have "secp256k1_n - a \<le> secp256k1_n div 2" using h n_odd by linarith
  moreover have "secp256k1_n - a \<noteq> 0" using assms(1) by simp
  ultimately show ?thesis using e by (simp add: scalar_is_high_def)
qed

lemma sign_compute_sigs_less:
  "ecdsa_sig_sign_compute checks ecmult_gen ctx seckey message nonce recid = Returned (sigr, sigs, rc)
   \<Longrightarrow> sigs < secp256k1_n"
  by (auto simp: ecdsa_sig_sign_compute_def Let_def scalar_mul_less split: if_splits prod.splits)

text \<open>
  C5: whenever signing returns 1, the output scalar s is nonzero and not in the high half
  (s is at most n div 2). When the computed s is in the high half, signing returns 1 with
  s replaced by its negation n - s and, when a recovery id was requested, with the low bit
  of the recovery id flipped; when the computed s is zero, signing returns 0.
\<close>
theorem ecdsa_sig_sign_low_s:
  "(ecdsa_sig_sign checks ecmult_gen ctx seckey message nonce recid = Returned (1, r, s, rc') \<longrightarrow>
      s \<noteq> 0 \<and> \<not> scalar_is_high s \<and> s \<le> secp256k1_n div 2) \<and>
   (ecdsa_sig_sign_compute checks ecmult_gen ctx seckey message nonce recid =
      Returned (sigr, sigs, rc) \<longrightarrow>
      (scalar_is_high sigs \<longrightarrow>
         scalar_negate sigs = secp256k1_n - sigs \<and>
         ecdsa_sig_sign checks ecmult_gen ctx seckey message nonce recid =
           Returned (1, sigr, secp256k1_n - sigs, map_option (\<lambda>v. v XOR 1) rc)) \<and>
      (sigs = 0 \<longrightarrow>
         ecdsa_sig_sign checks ecmult_gen ctx seckey message nonce recid =
           Returned (0, sigr, sigs, rc)) \<and>
      (sigs \<noteq> 0 \<and> \<not> scalar_is_high sigs \<longrightarrow>
         ecdsa_sig_sign checks ecmult_gen ctx seckey message nonce recid =
           Returned (1, sigr, sigs, rc)))"
proof (intro conjI impI)
  assume a: "ecdsa_sig_sign checks ecmult_gen ctx seckey message nonce recid = Returned (1, r, s, rc')"
  then obtain sigr0 sigs0 rc0 where
    c: "ecdsa_sig_sign_compute checks ecmult_gen ctx seckey message nonce recid =
          Returned (sigr0, sigs0, rc0)"
    by (auto simp: ecdsa_sig_sign_def split: outcome.splits)
  have l: "sigs0 < secp256k1_n" using c by (rule sign_compute_sigs_less)
  show "s \<noteq> 0" and "\<not> scalar_is_high s" and "s \<le> secp256k1_n div 2"
    using a c scalar_negate_high [OF l]
    by (auto simp: ecdsa_sig_sign_def scalar_is_zero_def scalar_is_high_def split: if_splits)
next
  assume c: "ecdsa_sig_sign_compute checks ecmult_gen ctx seckey message nonce recid =
      Returned (sigr, sigs, rc)"
  have l: "sigs < secp256k1_n" using c by (rule sign_compute_sigs_less)
  have nh: "\<not> scalar_is_high 0" by (simp add: scalar_is_high_def)
  show "scalar_negate sigs = secp256k1_n - sigs" if "scalar_is_high sigs"
    using scalar_negate_high [OF l that] by simp
  show "ecdsa_sig_sign checks ecmult_gen ctx seckey message nonce recid =
           Returned (1, sigr, secp256k1_n - sigs, map_option (\<lambda>v. v XOR 1) rc)"
    if "scalar_is_high sigs"
    using c that nh scalar_negate_high [OF l that]
    by (auto simp: ecdsa_sig_sign_def scalar_is_zero_def)
  show "ecdsa_sig_sign checks ecmult_gen ctx seckey message nonce recid = Returned (0, sigr, sigs, rc)"
    if "sigs = 0"
    using c that by (simp add: ecdsa_sig_sign_def scalar_is_zero_def)
  show "ecdsa_sig_sign checks ecmult_gen ctx seckey message nonce recid = Returned (1, sigr, sigs, rc)"
    if "sigs \<noteq> 0 \<and> \<not> scalar_is_high sigs"
    using c that by (simp add: ecdsa_sig_sign_def scalar_is_zero_def)
qed

lemma fe_inv_one: "fe_inv (Suc 0) = Suc 0"
  by (simp add: fe_inv_def modpow_eq secp256k1_p_def)

lemma scalar_inverse_one: "scalar_inverse (Suc 0) = Suc 0"
  by (simp add: scalar_inverse_def modpow_eq secp256k1_n_def)

lemma ge_set_gej_z_one: "ge_set_gej \<lparr>gej_x = 5, gej_y = 7, gej_z = Suc 0\<rparr> = \<lparr>ge_x = 5, ge_y = 7\<rparr>"
  by (simp add: ge_set_gej_def fe_inv_one fe_sqr_def fe_mul_def Let_def secp256k1_p_def)

lemma sign_compute_example:
  "ecdsa_sig_sign_compute True (\<lambda>(c::unit) k. \<lparr>gej_x = 5, gej_y = 7, gej_z = 1\<rparr>) ()
      1 (secp256k1_n - 6) 1 (Some 0) = Returned (5, secp256k1_n - 1, Some 1)"
proof -
  have b: "be_val (be_bytes 32 5) = 5" by (rule be_val_be_bytes) simp
  show ?thesis
    by (simp add: ecdsa_sig_sign_compute_def ge_set_gej_z_one Let_def fe_normalize_def
        fe_get_b32_def scalar_set_b32_def b scalar_is_zero_def fe_is_odd_def scalar_mul_def
        scalar_add_def scalar_inverse_one secp256k1_p_def secp256k1_n_def)
qed

theorem ecdsa_sig_sign_low_s_witness:
  "ecdsa_sig_sign_compute True (\<lambda>(c::unit) k. \<lparr>gej_x = 5, gej_y = 7, gej_z = 1\<rparr>) ()
      1 (secp256k1_n - 6) 1 (Some 0) = Returned (5, secp256k1_n - 1, Some 1) \<and>
   scalar_is_high (secp256k1_n - 1) \<and>
   ecdsa_sig_sign True (\<lambda>(c::unit) k. \<lparr>gej_x = 5, gej_y = 7, gej_z = 1\<rparr>) ()
      1 (secp256k1_n - 6) 1 (Some 0) = Returned (1, 5, 1, Some 0)"
proof -
  have h: "scalar_is_high (secp256k1_n - 1)"
    by (simp add: scalar_is_high_def secp256k1_n_def)
  show ?thesis
    using ecdsa_sig_sign_low_s [THEN conjunct2, rule_format, OF sign_compute_example,
        THEN conjunct1, rule_format, OF h] sign_compute_example h
    by (simp add: secp256k1_n_def)
qed

text \<open>
  C2: in verification, when the recomputed point is not infinity and the first
  x-coordinate test fails, the comparison of xr with the constant p - n is at least 0
  exactly when xr + n is at least p; in that case verification returns 0, and otherwise
  the sum computed is xr + n and verification returns 1 exactly when the same test holds
  for xr + n.
\<close>
theorem ecdsa_sig_verify_second_candidate:
  assumes "\<not> scalar_is_zero sigr" and "\<not> scalar_is_zero sigs"
    and "pr = ecmult ctx (gej_set_ge pubkey) (scalar_mul (scalar_inverse_var sigs) sigr)
                 (scalar_mul (scalar_inverse_var sigs) message)"
    and "xr = fe_set_b32 (scalar_get_b32 sigr)"
    and "\<not> gej_is_infinity pr" and "\<not> gej_eq_x_var xr pr"
  shows "((fe_cmp_var xr ecdsa_const_p_minus_order \<ge> 0) = (secp256k1_p \<le> xr + secp256k1_n)) \<and>
     (secp256k1_p \<le> xr + secp256k1_n \<longrightarrow>
        ecdsa_sig_verify ecmult ctx sigr sigs pubkey message = 0) \<and>
     (xr + secp256k1_n < secp256k1_p \<longrightarrow>
        fe_add xr ecdsa_const_order_as_fe = xr + secp256k1_n \<and>
        ecdsa_sig_verify ecmult ctx sigr sigs pubkey message =
          (if gej_eq_x_var (xr + secp256k1_n) pr then 1 else 0))"
proof -
  have cmp: "(fe_cmp_var xr ecdsa_const_p_minus_order \<ge> 0) = (secp256k1_p \<le> xr + secp256k1_n)"
    using n_less_p by (auto simp: fe_cmp_var_def p_minus_order_eq)
  have add: "fe_add xr ecdsa_const_order_as_fe = xr + secp256k1_n"
    if "xr + secp256k1_n < secp256k1_p"
    using that by (simp add: fe_add_def order_as_fe_eq)
  have v: "ecdsa_sig_verify ecmult ctx sigr sigs pubkey message =
      (if fe_cmp_var xr ecdsa_const_p_minus_order \<ge> 0 then 0
       else if gej_eq_x_var (fe_add xr ecdsa_const_order_as_fe) pr then 1 else 0)"
    using assms by (simp add: ecdsa_sig_verify_def Let_def)
  show ?thesis using cmp add v by auto
qed

theorem ecdsa_sig_verify_second_candidate_witness:
  "\<not> gej_eq_x_var 5 \<lparr>gej_x = 5 + secp256k1_n, gej_y = 1, gej_z = 1\<rparr> \<and>
   5 + secp256k1_n < secp256k1_p \<and>
   gej_eq_x_var (5 + secp256k1_n) \<lparr>gej_x = 5 + secp256k1_n, gej_y = 1, gej_z = 1\<rparr> \<and>
   ecdsa_sig_verify (\<lambda>(c::unit) a u2 u1. \<lparr>gej_x = 5 + secp256k1_n, gej_y = 1, gej_z = 1\<rparr>) ()
     5 7 \<lparr>ge_x = 1, ge_y = 1\<rparr> 3 = 1"
proof -
  have x: "fe_set_b32 (scalar_get_b32 5) = 5"
    by (rule fe_of_scalar) (simp add: secp256k1_n_def)
  have ne: "\<not> gej_eq_x_var 5 \<lparr>gej_x = 5 + secp256k1_n, gej_y = 1, gej_z = 1\<rparr>"
    by (simp add: gej_eq_x_var_def fe_mul_def fe_sqr_def secp256k1_p_def secp256k1_n_def)
  have eq: "gej_eq_x_var (5 + secp256k1_n) \<lparr>gej_x = 5 + secp256k1_n, gej_y = 1, gej_z = 1\<rparr>"
    by (simp add: gej_eq_x_var_def fe_mul_def fe_sqr_def secp256k1_p_def secp256k1_n_def)
  have lt: "5 + secp256k1_n < secp256k1_p"
    by (simp add: secp256k1_p_def secp256k1_n_def)
  have ni: "\<not> gej_is_infinity \<lparr>gej_x = 5 + secp256k1_n, gej_y = 1, gej_z = 1\<rparr>"
    by (simp add: gej_is_infinity_def secp256k1_p_def)
  show ?thesis
    using ecdsa_sig_verify_second_candidate
      [where sigr = 5 and sigs = 7 and message = 3 and ctx = "()" and xr = 5
         and pubkey = "\<lparr>ge_x = 1, ge_y = 1\<rparr>"
         and ecmult = "\<lambda>(c::unit) a u2 u1. \<lparr>gej_x = 5 + secp256k1_n, gej_y = 1, gej_z = 1\<rparr>"
         and pr = "\<lparr>gej_x = 5 + secp256k1_n, gej_y = 1, gej_z = 1\<rparr>"]
      x ne eq lt ni
    by (simp add: scalar_is_zero_def)
qed

section \<open>Serialize, then parse\<close>

lemma be_val_der_strip: "be_val (der_strip bs) = be_val bs"
  by (induction bs rule: der_strip.induct) auto

lemma der_strip_head_small:
  "bs \<noteq> [] \<Longrightarrow> hd bs < 0x80 \<Longrightarrow> hd (der_strip bs) < 0x80"
  by (induction bs rule: der_strip.induct) auto

lemma der_strip_minimal:
  "der_strip bs = a # b # cs \<Longrightarrow> \<not> (a = 0 \<and> b < 0x80)"
  by (induction bs rule: der_strip.induct) (auto split: if_splits)

lemma der_strip_same_or_shorter:
  "der_strip (a # bs) = a # bs \<or> length (der_strip (a # bs)) \<le> length bs"
proof (cases bs)
  case Nil
  then show ?thesis by simp
next
  case (Cons b cs)
  then show ?thesis using der_strip_length_le [of "b # cs"] by auto
qed

lemma der_strip_payload:
  "length (dropWhile (\<lambda>b. b = 0) (der_strip (0 # bs))) \<le> length bs"
proof -
  consider "der_strip (0 # bs) = 0 # bs" | "length (der_strip (0 # bs)) \<le> length bs"
    using der_strip_same_or_shorter by blast
  then show ?thesis
  proof cases
    case 1
    have "length (dropWhile (\<lambda>b. b = 0) bs) \<le> length bs" by (rule length_dropWhile_le)
    with 1 show ?thesis by simp
  next
    case 2
    have "length (dropWhile (\<lambda>b. b = 0) (der_strip (0 # bs))) \<le> length (der_strip (0 # bs))"
      by (rule length_dropWhile_le)
    with 2 show ?thesis by simp
  qed
qed

lemma be_val_dropWhile_zero: "be_val (dropWhile (\<lambda>b. b = 0) bs) = be_val bs"
  by (induction bs) auto

lemma der_skip_zeros_segment:
  "drop pos buf = c @ post \<Longrightarrow>
   der_skip_zeros buf pos (int (length c)) =
     (pos + length (takeWhile (\<lambda>b. b = 0) c), int (length (dropWhile (\<lambda>b. b = 0) c)))"
proof (induction c arbitrary: pos)
  case Nil
  show ?case by (subst der_skip_zeros.simps) simp
next
  case (Cons x xs)
  have x: "buf ! pos = x" using Cons.prems by (simp add: nth_via_drop)
  show ?case
  proof (cases "x = 0")
    case True
    have "drop (Suc pos) buf = xs @ post"
      using Cons.prems by (metis drop_Suc tl_drop list.sel(3) append_Cons)
    then have "der_skip_zeros buf (pos + 1) (int (length xs)) =
        (pos + 1 + length (takeWhile (\<lambda>b. b = 0) xs), int (length (dropWhile (\<lambda>b. b = 0) xs)))"
      using Cons.IH [of "pos + 1"] by simp
    then show ?thesis using True x by (subst der_skip_zeros.simps) simp
  next
    case False
    then show ?thesis using x by (subst der_skip_zeros.simps) auto
  qed
qed

lemma drop_takeWhile_segment:
  "drop pos buf = c @ post \<Longrightarrow>
   drop (pos + length (takeWhile P c)) buf = dropWhile P c @ post"
proof -
  assume a: "drop pos buf = c @ post"
  have "drop (pos + length (takeWhile P c)) buf = drop (length (takeWhile P c)) (drop pos buf)"
    by (simp add: add.commute)
  also have "\<dots> = drop (length (takeWhile P c)) c @ post"
    using length_takeWhile_le [of P c] by (simp add: a)
  also have "\<dots> = dropWhile P c @ post" by (simp add: dropWhile_eq_drop)
  finally show ?thesis .
qed


lemma n_less_2_256: "secp256k1_n < 256 ^ 32"
  by (simp add: secp256k1_n_def)

lemma der_parse_integer_encoded:
  assumes v: "v < secp256k1_n"
    and c: "c = der_strip (0 # scalar_get_b32 v)"
    and buf: "buf = pre @ [0x02, word_of_nat (length c)] @ c @ post"
  shows "der_parse_integer r0 buf (length pre) = (1, v, length pre + 2 + length c)"
proof -
  define pos where "pos = length pre"
  define k where "k = length (takeWhile (\<lambda>b. b = 0) c)"
  define d where "d = dropWhile (\<lambda>b. b = 0) c"
  have lc: "1 \<le> length c \<and> length c \<le> 33" unfolding c by (rule der_strip_len_bounds)
  have f1: "pos < length buf" and f1': "pos \<noteq> length buf" by (simp_all add: buf pos_def)
  have f2: "buf ! pos = 0x02" by (simp add: buf pos_def)
  have f3: "buf ! (pos + 1) = word_of_nat (length c)"
    by (simp add: buf pos_def nth_append)
  have "buf ! (pos + 1) < 0x80" unfolding f3 using lc by (intro word_of_nat_byte_less) simp
  moreover have "pos + 1 < length buf" by (simp add: buf pos_def)
  ultimately have "der_read_len buf (pos + 1) = (uint (buf ! (pos + 1)), pos + 1 + 1)"
    by (intro der_read_len_short)
  then have rl: "der_read_len buf (pos + 1) = (int (length c), pos + 2)"
    unfolding f3 using lc by (simp add: uint_word_of_nat_byte)
  have dr: "drop (pos + 2) buf = c @ post" by (simp add: buf pos_def)
  have fits: "int (pos + 2) + int (length c) \<le> int (length buf)" by (simp add: buf pos_def)
  have nth: "buf ! (pos + 2 + i) = c ! i" if "i < length c" for i
  proof -
    have "pos + 2 \<le> length buf" by (simp add: buf pos_def)
    then have "buf ! (pos + 2 + i) = drop (pos + 2) buf ! i" by (rule nth_drop [symmetric])
    also have "\<dots> = (c @ post) ! i" by (simp only: dr)
    also have "\<dots> = c ! i" using that by (simp add: nth_append)
    finally show ?thesis .
  qed
  have cne: "c \<noteq> []" using lc by auto
  have b0: "buf ! (pos + 2) = c ! 0" using nth [of 0] cne by simp
  have b1: "buf ! (pos + 2 + 1) = c ! 1" if "1 < length c" using nth [of 1] that by simp
  have "hd c < 0x80" unfolding c by (rule der_strip_head_small) simp_all
  then have h0: "c ! 0 < 0x80" using lc by (cases c) simp_all
  have pad0: "\<not> (buf ! (pos + 2) = 0x00 \<and> int (length c) > 1 \<and> (buf ! (pos + 2 + 1)) AND 0x80 = 0x00)"
  proof
    assume a: "buf ! (pos + 2) = 0x00 \<and> int (length c) > 1 \<and> (buf ! (pos + 2 + 1)) AND 0x80 = 0x00"
    then have l: "1 < length c" by simp
    then obtain x y cs where cc: "c = x # y # cs"
      by (cases c; cases "tl c") auto
    have "x = 0 \<and> y < 0x80" using a b0 b1 [OF l] by (simp add: cc byte_and_0x80_zero)
    moreover have "der_strip (0 # scalar_get_b32 v) = x # y # cs" using c cc by simp
    ultimately show False using der_strip_minimal by blast
  qed
  have padF: "buf ! (pos + 2) \<noteq> 0xFF" using h0 b0 by auto
  have noneg: "\<not> (buf ! (pos + 2)) AND 0x80 = 0x80"
    using h0 b0 by (simp add: byte_and_0x80_set byte_and_0x80_zero)
  have sk: "der_skip_zeros buf (pos + 2) (int (length c)) = (pos + 2 + k, int (length d))"
    unfolding k_def d_def using dr by (rule der_skip_zeros_segment)
  have ld: "length d \<le> 32"
    unfolding d_def c using der_strip_payload [of "scalar_get_b32 v"]
    by (simp add: scalar_get_b32_def length_be_bytes)
  have "drop (pos + 2 + k) buf = d @ post"
    unfolding k_def d_def using dr by (rule drop_takeWhile_segment)
  then have cp: "der_copy_ra buf (pos + 2 + k) (int (length d)) = replicate (32 - length d) 0 @ d"
    by (simp add: der_copy_ra_def)
  have "be_val d = be_val c" unfolding d_def by (rule be_val_dropWhile_zero)
  also have "\<dots> = be_val (0 # scalar_get_b32 v)" unfolding c by (rule be_val_der_strip)
  also have "\<dots> = v"
    using v n_less_2_256 by (simp add: scalar_get_b32_def be_val_be_bytes)
  finally have bv: "be_val (replicate (32 - length d) 0 @ d) = v"
    by (simp add: be_val_zero_padded)
  have sb: "scalar_set_b32 (der_copy_ra buf (pos + 2 + k) (int (length d))) = (v, False)"
    unfolding cp scalar_set_b32_def bv using v by simp
  have kd: "k + length d = length c"
    unfolding k_def d_def
    by (metis length_append takeWhile_dropWhile_id)
  have "der_parse_integer r0 buf pos = (1, v, pos + 2 + k + length d)"
    using f1' f2 rl fits pad0 padF noneg sk ld sb cne
    by (simp add: der_parse_integer_def Let_def)
  then show ?thesis using kd by (simp add: pos_def)
qed


text \<open>
  C3: for scalars r and s in 1..n-1 with s at most n div 2, serializing (r, s) into a
  buffer whose capacity is at least the required size succeeds, and parsing the bytes
  produced returns 1 and exactly (r, s).
\<close>
theorem der_roundtrip:
  assumes "1 \<le> r" and "r < secp256k1_n" and "1 \<le> s" and "s \<le> secp256k1_n div 2"
    and "6 + length (der_strip (0 # scalar_get_b32 s)) + length (der_strip (0 # scalar_get_b32 r)) \<le> sz"
    and "sz \<le> length sig"
  shows "\<exists>sig' sz'. ecdsa_sig_serialize sig sz r s = Some (1, sig', sz') \<and>
           ecdsa_sig_parse rr0 rs0 (take sz' sig') = (1, r, s)"
proof -
  define rp where "rp = der_strip (0 # scalar_get_b32 r)"
  define sp where "sp = der_strip (0 # scalar_get_b32 s)"
  define k where "k = 4 + length sp + length rp"
  define L :: byte where "L = word_of_nat k"
  define out where "out = [0x30, L, 0x02, word_of_nat (length rp)] @ rp @ [0x02, word_of_nat (length sp)] @ sp"
  have sn: "s < secp256k1_n" using assms(4) n_pos by linarith
  have lr: "1 \<le> length rp \<and> length rp \<le> 33" unfolding rp_def by (rule der_strip_len_bounds)
  have ls: "1 \<le> length sp \<and> length sp \<le> 33" unfolding sp_def by (rule der_strip_len_bounds)
  have lo: "length out = 6 + length sp + length rp" by (simp add: out_def)
  have ser: "ecdsa_sig_serialize sig sz r s =
      Some (1, out @ drop (6 + length sp + length rp) sig, 6 + length sp + length rp)"
    using assms(5,6)
    by (simp add: ecdsa_sig_serialize_def Let_def rp_def [symmetric] sp_def [symmetric] out_def L_def
        k_def del: of_nat_add)
  have tk: "take (6 + length sp + length rp) (out @ drop (6 + length sp + length rp) sig) = out"
    by (simp add: lo)
  have o0: "out \<noteq> []" and o1: "out ! 0 = 0x30" by (simp_all add: out_def)
  have "out ! 1 = L" by (simp add: out_def)
  moreover have k: "k < 128" using lr ls by (simp add: k_def)
  then have "L < 0x80" unfolding L_def by (rule word_of_nat_byte_less)
  moreover have "1 < length out" by (simp add: lo)
  ultimately have "der_read_len out 1 = (uint L, 1 + 1)"
    using der_read_len_short [of 1 out] by simp
  moreover have "uint L = int k" unfolding L_def using k by (simp add: uint_word_of_nat_byte)
  ultimately have rl: "der_read_len out 1 = (int k, 2)" by simp
  have kk: "2 + int k = int (length out)" by (simp add: lo k_def)
  have "out = [0x30, L] @ [0x02, word_of_nat (length rp)] @ rp @ ([0x02, word_of_nat (length sp)] @ sp)"
    by (simp add: out_def)
  from der_parse_integer_encoded [OF assms(2) rp_def this, of rr0]
  have "der_parse_integer rr0 out (length [0x30, L]) = (1, r, length [0x30, L] + 2 + length rp)" .
  moreover have "length [0x30, L] = 2" by simp
  ultimately have p1: "der_parse_integer rr0 out 2 = (1, r, 4 + length rp)"
    by (simp only:) simp
  have "out = ([0x30, L, 0x02, word_of_nat (length rp)] @ rp) @ [0x02, word_of_nat (length sp)] @ sp @ []"
    by (simp add: out_def)
  from der_parse_integer_encoded [OF sn sp_def this, of rs0]
  have "der_parse_integer rs0 out (length ([0x30, L, 0x02, word_of_nat (length rp)] @ rp)) =
      (1, s, length ([0x30, L, 0x02, word_of_nat (length rp)] @ rp) + 2 + length sp)" .
  moreover have "length ([0x30, L, 0x02, word_of_nat (length rp)] @ rp) = 4 + length rp" by simp
  ultimately have p2: "der_parse_integer rs0 out (4 + length rp) = (1, s, 6 + length sp + length rp)"
    by (simp only:) simp
  have "ecdsa_sig_parse rr0 rs0 out = (1, r, s)"
    using o0 o1 rl p1 p2 kk lo
    by (simp add: ecdsa_sig_parse_def Let_def)
  then show ?thesis using ser tk by simp
qed


theorem der_roundtrip_witness:
  "ecdsa_sig_serialize (replicate 8 0xAA) 8 5 7 = Some (1, [0x30, 6, 2, 1, 5, 2, 1, 7], 8) \<and>
   ecdsa_sig_parse 11 13 [0x30, 6, 2, 1, 5, 2, 1, 7] = (1, 5, 7)"
  using der_roundtrip [of 5 7 8 "replicate 8 0xAA" 11 13] serialize_5_7
  by (simp add: strip_5 strip_7 secp256k1_n_def)

end
